theory Spec2Isabelle
  imports Complex_Main "HOL-Library.Product_Lexorder" "HOL-Library.List_Lexorder"
begin

section \<open>Python strings\<close>

text \<open>
  A Python \<open>str\<close> is a sequence of Unicode code points, so it is modelled as a list of
  code points (\<open>len\<close> counts code points, which the token filter of the parallel
  matcher relies on). ASCII literals of the sources are written with \<open>asc\<close>.
\<close>

type_synonym pystr = "int list"

definition asc :: "string \<Rightarrow> pystr" where
  "asc s = map of_char s"

definition isspace :: "int \<Rightarrow> bool" where
  \<comment> \<open>\<open>str.isspace\<close> of one code point; the regular expression class \<open>\s\<close> is the same set.\<close>
  "isspace c \<longleftrightarrow>
     (9 \<le> c \<and> c \<le> 13) \<or> (28 \<le> c \<and> c \<le> 32) \<or> c = 133 \<or> c = 160 \<or> c = 5760 \<or>
     (8192 \<le> c \<and> c \<le> 8202) \<or> c = 8232 \<or> c = 8233 \<or> c = 8239 \<or> c = 8287 \<or> c = 12288"

definition py_strip :: "pystr \<Rightarrow> pystr" where
  \<comment> \<open>\<open>s.strip()\<close>\<close>
  "py_strip s = rev (dropWhile isspace (rev (dropWhile isspace s)))"

definition lower_cp :: "int \<Rightarrow> int" where
  "lower_cp c = (if 65 \<le> c \<and> c \<le> 90 then c + 32 else c)"

definition py_lower :: "pystr \<Rightarrow> pystr" where
  \<comment> \<open>\<open>s.lower()\<close> on the ASCII letters. A code point outside ASCII is kept as it is; none
      of them lowercases to a letter of the word \<open>parallel\<close>, the only string a lowercased
      value is compared with.\<close>
  "py_lower s = map lower_cp s"

text \<open>
  \<open>int(s)\<close> of a string is a function of the Python library that reads many forms (signs,
  underscores between digits, digits of other scripts, blanks around the number) and
  refuses others (more digits than its limit). The model does not rebuild it: where a
  script calls \<open>int\<close> on a string, the function is a parameter \<open>to_int\<close> of the model, and
  \<open>None\<close> is its \<open>ValueError\<close>. The examples use \<open>decimal_int\<close>, the value of a string of
  ASCII digits; on such a string of at most 4300 digits it is what \<open>int\<close> returns.
\<close>

fun digits_val :: "nat \<Rightarrow> pystr \<Rightarrow> nat option" where
  "digits_val acc [] = Some acc"
| "digits_val acc (c # cs) =
     (if 48 \<le> c \<and> c \<le> 57 then digits_val (10 * acc + nat (c - 48)) cs else None)"

definition decimal_int :: "pystr \<Rightarrow> int option" where
  "decimal_int s =
     (if s = [] \<or> length s > 4300 then None else map_option int (digits_val 0 s))"

section \<open>The timeline normalizer (\<open>scripts/build_web_data.py\<close>)\<close>

datatype error =
    DuplicateEventId pystr
  | InvalidInt pystr
  | UnknownEventRef pystr
  | TranslationNotSingle "pystr list"
  | MissingDirect pystr
  | UnknownEdgeEvent pystr pystr
  | DagViolation pystr

definition CERTAINTY_SET :: "pystr set" where
  "CERTAINTY_SET = {asc ''high'', asc ''medium'', asc ''low'', asc ''disputed''}"

text \<open>A row of \<open>events.csv\<close> as \<open>csv.DictReader\<close> hands it over: every column a string.\<close>

record events_row =
  event_id :: pystr
  testament :: pystr
  book :: pystr
  event_title :: pystr
  event_summary :: pystr
  lane_tag :: pystr
  sequence_index :: pystr
  track_id :: pystr
  certainty_level :: pystr

record event =
  ev_event_id :: pystr
  ev_lane_tag :: pystr
  ev_sequence_index :: int
  ev_book :: pystr
  ev_event_title :: pystr
  ev_event_summary :: pystr
  ev_certainty_level :: pystr

definition normalize_certainty :: "pystr \<Rightarrow> pystr" where
  "normalize_certainty raw =
     (let certainty = py_strip raw
      in if certainty \<notin> CERTAINTY_SET then asc ''medium'' else certainty)"

text \<open>
  The loop of \<open>normalize_events\<close>: \<open>seen_ids\<close> and the events collected so far are the
  state; a duplicate id and a \<open>sequence_index\<close> that is no integer raise.
\<close>

fun normalize_events_loop ::
  "(pystr \<Rightarrow> int option) \<Rightarrow> events_row list \<Rightarrow> pystr set \<Rightarrow> event list \<Rightarrow>
   error + event list" where
  "normalize_events_loop to_int [] seen_ids events = Inr events"
| "normalize_events_loop to_int (row # rows) seen_ids events =
     (let eid = py_strip (event_id row)
      in if eid \<in> seen_ids then Inl (DuplicateEventId eid)
         else
           (case to_int (sequence_index row) of
              None \<Rightarrow> Inl (InvalidInt (sequence_index row))
            | Some seq \<Rightarrow>
                normalize_events_loop to_int rows (insert eid seen_ids)
                  (events @
                   [\<lparr>ev_event_id = eid,
                     ev_lane_tag = py_strip (lane_tag row),
                     ev_sequence_index = seq,
                     ev_book = py_strip (book row),
                     ev_event_title = py_strip (event_title row),
                     ev_event_summary = py_strip (event_summary row),
                     ev_certainty_level = normalize_certainty (certainty_level row)\<rparr>])))"

definition normalize_events ::
  "(pystr \<Rightarrow> int option) \<Rightarrow> events_row list \<Rightarrow> error + event list" where
  \<comment> \<open>the final \<open>events.sort(key=...)\<close> is Python's stable sort\<close>
  "normalize_events to_int rows =
     (case normalize_events_loop to_int rows {} [] of
        Inl e \<Rightarrow> Inl e
      | Inr events \<Rightarrow> Inr (sort_key ev_sequence_index events))"

text \<open>A row of \<open>evidence_verses.csv\<close> (the column \<open>note\<close> is the field \<open>evd_note\<close>).\<close>

record evidence_row =
  evidence_id :: pystr
  evd_event_id :: pystr
  evidence_tier :: pystr
  reference :: pystr
  verse_text_kr :: pystr
  translation :: pystr
  is_parallel :: pystr
  evd_note :: pystr

text \<open>
  An entry of a bucket: the dictionary \<open>base\<close>, whose key \<open>note\<close> exists only in the
  parallel bucket.
\<close>

record out_evidence =
  oe_reference :: pystr
  oe_verse_text_kr :: pystr
  oe_note :: "pystr option"

record bucket =
  direct :: "out_evidence list"
  parallel :: "out_evidence list"

definition tier_of :: "evidence_row \<Rightarrow> pystr" where
  "tier_of row = py_lower (py_strip (evidence_tier row))"

definition base_of :: "evidence_row \<Rightarrow> out_evidence" where
  "base_of row =
     \<lparr>oe_reference = py_strip (reference row),
      oe_verse_text_kr = py_strip (verse_text_kr row),
      oe_note = None\<rparr>"

definition add_evidence :: "evidence_row \<Rightarrow> bucket \<Rightarrow> bucket" where
  "add_evidence row b =
     (if tier_of row = asc ''parallel''
      then b\<lparr>parallel := parallel b @ [(base_of row)\<lparr>oe_note := Some (py_strip (evd_note row))\<rparr>]\<rparr>
      else b\<lparr>direct := direct b @ [base_of row]\<rparr>)"

text \<open>
  The row loop of \<open>normalize_evidence\<close>. The state is the dictionary
  \<open>evidence_by_event\<close> and \<open>translation_set\<close> (kept as a duplicate-free list).
\<close>

fun evidence_loop ::
  "evidence_row list \<Rightarrow> (pystr \<rightharpoonup> bucket) \<Rightarrow> pystr list \<Rightarrow>
   error + (pystr \<rightharpoonup> bucket) \<times> pystr list" where
  "evidence_loop [] by_event translation_set = Inr (by_event, translation_set)"
| "evidence_loop (row # rows) by_event translation_set =
     (let eid = py_strip (evd_event_id row)
      in case by_event eid of
           None \<Rightarrow> Inl (UnknownEventRef eid)
         | Some b \<Rightarrow>
             evidence_loop rows (by_event(eid \<mapsto> add_evidence row b))
               (List.insert (py_strip (translation row)) translation_set))"

fun first_missing_direct :: "pystr list \<Rightarrow> (pystr \<rightharpoonup> bucket) \<Rightarrow> pystr option" where
  "first_missing_direct [] by_event = None"
| "first_missing_direct (eid # eids) by_event =
     (case by_event eid of
        Some b \<Rightarrow> if direct b = [] then Some eid else first_missing_direct eids by_event
      | None \<Rightarrow> first_missing_direct eids by_event)"

definition total_evidence :: "pystr list \<Rightarrow> (pystr \<rightharpoonup> bucket) \<Rightarrow> nat" where
  "total_evidence eids by_event =
     sum_list (map (\<lambda>eid. case by_event eid of
                              Some b \<Rightarrow> length (direct b) + length (parallel b)
                            | None \<Rightarrow> 0) eids)"

definition empty_bucket :: bucket where
  "empty_bucket = \<lparr>direct = [], parallel = []\<rparr>"

text \<open>
  \<open>normalize_evidence(rows, event_ids)\<close>. The set \<open>event_ids\<close> is given as the list of its
  elements in the order Python iterates over it (duplicate-free).
\<close>

definition normalize_evidence ::
  "evidence_row list \<Rightarrow> pystr list \<Rightarrow> error + (pystr \<rightharpoonup> bucket) \<times> pystr \<times> nat" where
  "normalize_evidence rows event_ids =
     (case evidence_loop rows (map_of (map (\<lambda>eid. (eid, empty_bucket)) event_ids)) [] of
        Inl e \<Rightarrow> Inl e
      | Inr (by_event, translation_set) \<Rightarrow>
          (case translation_set of
             [t] \<Rightarrow>
               (case first_missing_direct event_ids by_event of
                  Some eid \<Rightarrow> Inl (MissingDirect eid)
                | None \<Rightarrow> Inr (by_event, t, total_evidence event_ids by_event))
           | _ \<Rightarrow> Inl (TranslationNotSingle (sort translation_set))))"

text \<open>A row of \<open>chronology_edges.csv\<close> and an edge of the payload.\<close>

record edge_row =
  edge_id :: pystr
  from_event_id :: pystr
  to_event_id :: pystr
  relation_type :: pystr
  basis_reference :: pystr
  edge_track_id :: pystr

record out_edge =
  oe_from_event_id :: pystr
  oe_to_event_id :: pystr
  oe_relation_type :: pystr

text \<open>
  \<open>by_track[k].append(v)\<close> on a \<open>defaultdict(list)\<close>: the dictionary is an association
  list in insertion order.
\<close>

fun dd_append :: "'k \<Rightarrow> 'v \<Rightarrow> ('k \<times> 'v list) list \<Rightarrow> ('k \<times> 'v list) list" where
  "dd_append k v [] = [(k, [v])]"
| "dd_append k v ((k', vs) # kvs) =
     (if k = k' then (k', vs @ [v]) # kvs else (k', vs) # dd_append k v kvs)"

definition normalize_relation :: "pystr \<Rightarrow> pystr" where
  "normalize_relation raw =
     (let relation = py_strip raw
      in if relation \<noteq> asc ''before'' then asc ''before'' else relation)"

fun edges_loop ::
  "edge_row list \<Rightarrow> pystr set \<Rightarrow> (pystr \<times> out_edge list) list \<Rightarrow>
   error + (pystr \<times> out_edge list) list" where
  "edges_loop [] event_ids by_track = Inr by_track"
| "edges_loop (row # rows) event_ids by_track =
     (let frm = py_strip (from_event_id row); to = py_strip (to_event_id row)
      in if frm \<notin> event_ids \<or> to \<notin> event_ids then Inl (UnknownEdgeEvent frm to)
         else edges_loop rows event_ids
                (dd_append (py_strip (edge_track_id row))
                   \<lparr>oe_from_event_id = frm, oe_to_event_id = to,
                     oe_relation_type = normalize_relation (relation_type row)\<rparr>
                   by_track))"

definition normalize_edges ::
  "edge_row list \<Rightarrow> pystr set \<Rightarrow> error + (pystr \<times> out_edge list) list" where
  "normalize_edges rows event_ids = edges_loop rows event_ids []"

section \<open>The quota allocator (\<open>scripts/build_research_dataset.py\<close>)\<close>







section \<open>The cycle check of the chronology tracks (\<open>scripts/build_research_dataset.py\<close>)\<close>

text \<open>
  \<open>topological_ok(nodes, edges)\<close>. The dictionaries \<open>indeg\<close> and \<open>outgoing\<close> are keyed by the
  node set and are only ever read at nodes of that set (the edges with an endpoint outside
  it are skipped, the queue holds nodes of the set), so they are functions on the nodes
  here. The first loop:
\<close>

fun add_edges ::
  "'a set \<Rightarrow> ('a \<times> 'a) list \<Rightarrow> ('a \<Rightarrow> int) \<Rightarrow> ('a \<Rightarrow> 'a list) \<Rightarrow> ('a \<Rightarrow> int) \<times> ('a \<Rightarrow> 'a list)" where
  "add_edges node_set [] indeg outgoing = (indeg, outgoing)"
| "add_edges node_set ((src, dst) # edges) indeg outgoing =
     (if src \<notin> node_set \<or> dst \<notin> node_set then add_edges node_set edges indeg outgoing
      else add_edges node_set edges (indeg(dst := indeg dst + 1))
             (outgoing(src := outgoing src @ [dst])))"

text \<open>The inner loop \<open>for nxt in outgoing[cur]\<close>, on the in-degrees and the queue.\<close>

fun relax :: "'a list \<Rightarrow> ('a \<Rightarrow> int) \<Rightarrow> 'a list \<Rightarrow> ('a \<Rightarrow> int) \<times> 'a list" where
  "relax [] indeg queue = (indeg, queue)"
| "relax (nxt # rest) indeg queue =
     (let indeg' = indeg(nxt := indeg nxt - 1)
      in relax rest indeg' (if indeg' nxt = 0 then queue @ [nxt] else queue))"

text \<open>
  The loop \<open>while queue\<close>; \<open>queue.pop()\<close> takes the last element. Nothing in its text bounds
  the number of rounds, so it is a partial function: \<open>None\<close> stands for a run that does not
  end.
\<close>

partial_function (option) kahn_loop ::
  "('a \<Rightarrow> 'a list) \<Rightarrow> ('a \<Rightarrow> int) \<Rightarrow> 'a list \<Rightarrow> nat \<Rightarrow> nat option" where
  "kahn_loop outgoing indeg queue visited =
     (if queue = [] then Some visited
      else kahn_loop outgoing
             (fst (relax (outgoing (last queue)) indeg (butlast queue)))
             (snd (relax (outgoing (last queue)) indeg (butlast queue)))
             (visited + 1))"

text \<open>
  The order in which Python iterates over the set \<open>node_set\<close> is not specified; the model
  takes the nodes without repetitions in the order they are given.
\<close>

definition topological_ok :: "'a list \<Rightarrow> ('a \<times> 'a) list \<Rightarrow> bool option" where
  "topological_ok nodes edges =
     (let node_set = remdups nodes;
          graph = add_edges (set node_set) edges (\<lambda>n. 0) (\<lambda>n. []);
          queue = filter (\<lambda>n. fst graph n = 0) node_set
      in map_option (\<lambda>visited. visited = length node_set)
           (kahn_loop (snd graph) (fst graph) queue 0))"

text \<open>
  The validation of \<open>main\<close>: the rows of the chronology table (they have the columns of
  \<open>edge_row\<close>) are grouped by track into \<open>edges_by_track\<close> and \<open>nodes_by_track\<close>, and the
  first track that fails the check raises. \<open>dd_add\<close> is \<open>d[k].add(v)\<close> on a
  \<open>defaultdict(set)\<close>, \<open>dd_get\<close> the lookup \<open>d[k]\<close> of a \<open>defaultdict(list)\<close>.
\<close>

fun dd_add :: "'k \<Rightarrow> 'v \<Rightarrow> ('k \<times> 'v list) list \<Rightarrow> ('k \<times> 'v list) list" where
  "dd_add k v [] = [(k, [v])]"
| "dd_add k v ((k', vs) # kvs) =
     (if k = k' then (k', if v \<in> set vs then vs else vs @ [v]) # kvs
      else (k', vs) # dd_add k v kvs)"

definition dd_get :: "'k \<Rightarrow> ('k \<times> 'v list) list \<Rightarrow> 'v list" where
  "dd_get k kvs = (case map_of kvs k of Some vs \<Rightarrow> vs | None \<Rightarrow> [])"

definition edges_by_track :: "edge_row list \<Rightarrow> (pystr \<times> (pystr \<times> pystr) list) list" where
  "edges_by_track rows =
     foldl (\<lambda>acc row. dd_append (edge_track_id row) (from_event_id row, to_event_id row) acc)
       [] rows"

definition nodes_by_track :: "edge_row list \<Rightarrow> (pystr \<times> pystr list) list" where
  "nodes_by_track rows =
     foldl (\<lambda>acc row. dd_add (edge_track_id row) (to_event_id row)
                         (dd_add (edge_track_id row) (from_event_id row) acc))
       [] rows"

fun check_tracks ::
  "(pystr \<times> pystr list) list \<Rightarrow> (pystr \<times> (pystr \<times> pystr) list) list \<Rightarrow>
   (error + unit) option" where
  "check_tracks [] by_track = Some (Inr ())"
| "check_tracks ((track, nodes) # rest) by_track =
     (case topological_ok nodes (dd_get track by_track) of
        None \<Rightarrow> None
      | Some ok \<Rightarrow> if \<not> ok then Some (Inl (DagViolation track)) else check_tracks rest by_track)"

definition validate_tracks :: "edge_row list \<Rightarrow> (error + unit) option" where
  "validate_tracks rows = check_tracks (nodes_by_track rows) (edges_by_track rows)"

section \<open>The candidate event extractor (\<open>scripts/build_research_dataset.py\<close>)\<close>

record verse =
  v_testament :: pystr
  v_canonical_order :: int
  v_book_name :: pystr
  v_book_abbr :: pystr
  v_chapter :: int
  v_verse :: int
  v_text :: pystr

record candidate =
  c_testament :: pystr
  c_canonical_order :: int
  c_book_name :: pystr
  c_title :: pystr
  c_first_text :: pystr
  c_start_ref :: pystr
  c_start_chapter :: int
  c_start_verse :: int
  c_end_ref :: pystr
  c_verse_slice :: "verse list"

definition NARRATIVE_BOOKS :: "pystr set" where
  "NARRATIVE_BOOKS =
     {[52285, 49464, 44592], [52636, 50528, 44413, 44592], [48124, 49688, 44592],
      [49888, 47749, 44592], [50668, 54840, 49688, 50500], [49324, 49324, 44592],
      [47355, 44592], [49324, 47924, 50648, 49345], [49324, 47924, 50648, 54616],
      [50676, 50773, 44592, 49345], [50676, 50773, 44592, 54616], [50669, 45824, 49345],
      [50669, 45824, 54616], [50640, 49828, 46972], [45712, 54756, 48120, 50556],
      [50640, 49828, 45908], [45796, 45768, 50648], [50836, 45208],
      [47560, 53468, 48373, 51020], [47560, 44032, 48373, 51020],
      [45572, 44032, 48373, 51020], [50836, 54620, 48373, 51020],
      [49324, 46020, 54665, 51204]}"

text \<open>
  \<open>HEADING_RE.match(text)\<close> for the pattern \<open>^\s*<([^>]+)>\s*(.*)$\<close>: the groups 1 and 2 when
  the text matches. Every part of the pattern is greedy and none can match in two ways,
  so the match is read off from left to right: blanks, \<open><\<close> (60), at least one character
  other than \<open>>\<close> (62), \<open>>\<close>, blanks, and a rest without a line feed (10) but for one that ends
  the text.
\<close>

definition heading_match :: "pystr \<Rightarrow> (pystr \<times> pystr) option" where
  "heading_match text =
     (case dropWhile isspace text of
        [] \<Rightarrow> None
      | c # rest \<Rightarrow>
          if c \<noteq> 60 then None
          else
            (let g1 = takeWhile (\<lambda>x. x \<noteq> 62) rest;
                 after = dropWhile (\<lambda>x. x \<noteq> 62) rest
             in if g1 = [] \<or> after = [] then None
                else
                  (let r = dropWhile isspace (tl after);
                       g2 = (if r \<noteq> [] \<and> last r = 10 then butlast r else r)
                   in if 10 \<in> set g2 then None else Some (g1, g2))))"

text \<open>
  \<open>normalize_text\<close>: \<open>unicodedata.normalize("NFC", value.strip())\<close>. The normal form is a
  function of the Unicode library; it is a parameter \<open>nfc\<close> of the model.
\<close>

definition normalize_text :: "(pystr \<Rightarrow> pystr) \<Rightarrow> pystr \<Rightarrow> pystr" where
  "normalize_text nfc v = nfc (py_strip v)"

text \<open>\<open>str(n)\<close> of an integer, and \<open>f"{n:0wd}"\<close>.\<close>

fun digits_of :: "nat \<Rightarrow> pystr" where
  "digits_of n = (if n < 10 then [48 + int n] else digits_of (n div 10) @ [48 + int (n mod 10)])"

definition str_of_int :: "int \<Rightarrow> pystr" where
  "str_of_int n = (if n < 0 then 45 # digits_of (nat (- n)) else digits_of (nat n))"

definition zero_padded :: "nat \<Rightarrow> int \<Rightarrow> pystr" where
  "zero_padded w n =
     (if n < 0 then 45 # replicate (w - 1 - length (digits_of (nat (- n)))) 48 @ digits_of (nat (- n))
      else replicate (w - length (digits_of (nat n))) 48 @ digits_of (nat n))"

definition verse_ref :: "pystr \<Rightarrow> verse \<Rightarrow> pystr" where
  \<comment> \<open>\<open>f"{book_name} {verse.chapter}:{verse.verse}"\<close>\<close>
  "verse_ref book_name v = book_name @ [32] @ str_of_int (v_chapter v) @ [58] @ str_of_int (v_verse v)"

text \<open>\<open>heading_positions\<close>: the index, title and body of every verse with a heading.\<close>

definition heading_positions :: "(pystr \<Rightarrow> pystr) \<Rightarrow> verse list \<Rightarrow> (nat \<times> pystr \<times> pystr) list" where
  "heading_positions nfc verses =
     List.map_filter
       (\<lambda>(idx, verse).
           case heading_match (v_text verse) of
             None \<Rightarrow> None
           | Some (g1, g2) \<Rightarrow> Some (idx, normalize_text nfc g1, normalize_text nfc g2))
       (List.enumerate 0 verses)"

text \<open>
  \<open>clean_heading_prefix\<close>: headings are taken off the front as long as the text has one.
  Every round shortens the text, which is what the loop's termination rests on.
\<close>

function clean_loop :: "pystr \<Rightarrow> pystr" where
  "clean_loop text =
     (case heading_match text of
        None \<Rightarrow> text
      | Some (g1, g2) \<Rightarrow> clean_loop (py_strip g2))"
  by pat_completeness auto

lemma length_py_strip: "length (py_strip s) \<le> length s"
  unfolding py_strip_def
  by (metis length_dropWhile_le length_rev order_trans)

lemma heading_match_shorter:
  assumes "heading_match t = Some (g1, g2)"
  shows "length (py_strip g2) < length t"
proof -
  from assms obtain c rest where t: "dropWhile isspace t = c # rest"
    by (auto simp: heading_match_def split: list.splits)
  let ?after = "dropWhile (\<lambda>x. x \<noteq> 62) rest"
  let ?r = "dropWhile isspace (tl ?after)"
  from assms t have g2: "g2 = (if ?r \<noteq> [] \<and> last ?r = 10 then butlast ?r else ?r)"
    by (auto simp: heading_match_def Let_def split: if_splits)
  have "length g2 \<le> length ?r" by (simp add: g2)
  also have "\<dots> \<le> length (tl ?after)" by (rule length_dropWhile_le)
  also have "\<dots> \<le> length ?after" by simp
  also have "\<dots> \<le> length rest" by (rule length_dropWhile_le)
  also have "\<dots> < length (dropWhile isspace t)" by (simp add: t)
  also have "\<dots> \<le> length t" by (rule length_dropWhile_le)
  finally have "length g2 < length t" .
  with length_py_strip[of g2] show ?thesis by linarith
qed

termination clean_loop
  by (relation "measure length") (auto dest: heading_match_shorter)

definition clean_heading_prefix :: "pystr \<Rightarrow> pystr" where
  "clean_heading_prefix text = clean_loop (py_strip text)"

text \<open>The candidate of one heading; \<open>verse_slice\<close> is not empty where this is used.\<close>

definition candidate_of :: "pystr \<Rightarrow> pystr \<Rightarrow> pystr \<Rightarrow> verse list \<Rightarrow> candidate" where
  "candidate_of book_name title first_text verse_slice =
     (let start_verse = hd verse_slice;
          end_verse = last verse_slice;
          first_text' =
            (if first_text = [] then clean_heading_prefix (v_text start_verse) else first_text)
      in \<lparr>c_testament = v_testament start_verse,
          c_canonical_order = v_canonical_order start_verse,
          c_book_name = book_name,
          c_title = title,
          c_first_text = first_text',
          c_start_ref = verse_ref book_name start_verse,
          c_start_chapter = v_chapter start_verse,
          c_start_verse = v_verse start_verse,
          c_end_ref = verse_ref book_name end_verse,
          c_verse_slice = verse_slice\<rparr>)"

text \<open>
  The loop over \<open>heading_positions\<close> of one book: the slice of a heading ends before the
  next heading, and the slice of the last heading at the last verse.
  \<open>verses[start_idx : end_idx + 1]\<close> is \<open>take\<close> after \<open>drop\<close>.
\<close>

fun candidates_from ::
  "pystr \<Rightarrow> verse list \<Rightarrow> (nat \<times> pystr \<times> pystr) list \<Rightarrow> candidate list" where
  "candidates_from book_name verses [] = []"
| "candidates_from book_name verses ((start_idx, title, first_text) # rest) =
     (let end_idx = (case rest of [] \<Rightarrow> int (length verses) - 1 | (nxt, _) # _ \<Rightarrow> int nxt - 1);
          verse_slice = take (nat (end_idx + 1) - start_idx) (drop start_idx verses)
      in (if verse_slice = [] then []
          else [candidate_of book_name title first_text verse_slice])
         @ candidates_from book_name verses rest)"

definition book_events :: "(pystr \<Rightarrow> pystr) \<Rightarrow> pystr \<Rightarrow> verse list \<Rightarrow> candidate list" where
  "book_events nfc book_name verses =
     (if book_name \<notin> NARRATIVE_BOOKS then []
      else candidates_from book_name verses (heading_positions nfc verses))"

definition sort_key_of :: "candidate \<Rightarrow> int \<times> int \<times> int" where
  "sort_key_of c = (c_canonical_order c, c_start_chapter c, c_start_verse c)"

definition build_candidate_events ::
  "(pystr \<Rightarrow> pystr) \<Rightarrow> (pystr \<times> verse list) list \<Rightarrow> candidate list" where
  "build_candidate_events nfc by_book =
     sort_key sort_key_of
       (concat (map (\<lambda>(book_name, verses). book_events nfc book_name verses) by_book))"

section \<open>The selection within a book (\<open>pick_evenly\<close>)\<close>

definition event_key :: "candidate \<Rightarrow> pystr \<times> pystr" where
  "event_key item = (c_book_name item, c_start_ref item)"

definition stride_index :: "int \<Rightarrow> int \<Rightarrow> int \<Rightarrow> int" where
  \<comment> \<open>\<open>start = i * n // quota; end = (i + 1) * n // quota; idx = (start + max(start, end - 1)) // 2\<close>, with \<open>stop\<close> for \<open>end\<close>\<close>
  "stride_index n quota i =
     (let start = i * n div quota; stop = (i + 1) * n div quota
      in (start + max start (stop - 1)) div 2)"

fun dedupe ::
  "candidate list \<Rightarrow> (pystr \<times> pystr) set \<Rightarrow> candidate list \<Rightarrow>
   (pystr \<times> pystr) set \<times> candidate list" where
  "dedupe [] seen unique = (seen, unique)"
| "dedupe (item # rest) seen unique =
     (if event_key item \<notin> seen
      then dedupe rest (insert (event_key item) seen) (unique @ [item])
      else dedupe rest seen unique)"

text \<open>One run of \<open>for item in items\<close> inside the \<open>while\<close> loop, with its \<open>break\<close>.\<close>

fun fill_pass ::
  "candidate list \<Rightarrow> int \<Rightarrow> (pystr \<times> pystr) set \<Rightarrow> candidate list \<Rightarrow>
   (pystr \<times> pystr) set \<times> candidate list" where
  "fill_pass [] quota seen unique = (seen, unique)"
| "fill_pass (item # rest) quota seen unique =
     (if event_key item \<in> seen then fill_pass rest quota seen unique
      else if int (length (unique @ [item])) = quota
           then (insert (event_key item) seen, unique @ [item])
           else fill_pass rest quota (insert (event_key item) seen) (unique @ [item]))"

text \<open>
  \<open>while len(unique) < quota\<close>: the loop goes on until the quota is filled, however many
  runs over the items that takes; \<open>None\<close> stands for a loop that never ends.
\<close>

partial_function (option) fill_loop ::
  "candidate list \<Rightarrow> int \<Rightarrow> (pystr \<times> pystr) set \<Rightarrow> candidate list \<Rightarrow> candidate list option" where
  "fill_loop items quota seen unique =
     (if int (length unique) < quota
      then fill_loop items quota (fst (fill_pass items quota seen unique))
             (snd (fill_pass items quota seen unique))
      else Some unique)"

text \<open>
  \<open>pick_evenly(items, quota)\<close>. The indexes it reads lie inside the list: a stride index is
  below \<open>len(items)\<close>.
\<close>

definition pick_evenly :: "candidate list \<Rightarrow> int \<Rightarrow> candidate list option" where
  "pick_evenly items quota =
     (if quota \<ge> int (length items) then Some items
      else if quota \<le> 0 then Some []
      else if quota = 1 then Some [items ! (length items div 2)]
      else
        (let n = int (length items);
             selected = map (\<lambda>i. items ! nat (stride_index n quota (int i))) [0..<nat quota];
             d = dedupe selected {} []
         in map_option (sort_key sort_key_of) (fill_loop items quota (fst d) (snd d))))"

section \<open>The normalizer: edges\<close>

lemma normalize_relation_before: "normalize_relation raw = asc ''before''"
  by (simp add: normalize_relation_def Let_def)

text \<open>
  The keys of a dictionary filled by appending under the keys \<open>ks\<close>, in the order of
  their first appearance.
\<close>

definition first_seen :: "'k list \<Rightarrow> 'k list" where
  "first_seen ks = rev (remdups (rev ks))"

lemma first_seen_set [simp]: "set (first_seen ks) = set ks"
  by (simp add: first_seen_def)

lemma first_seen_distinct [simp]: "distinct (first_seen ks)"
  by (simp add: first_seen_def)

lemma first_seen_snoc:
  "first_seen (ks @ [k]) = (if k \<in> set ks then first_seen ks else first_seen ks @ [k])"
  by (simp add: first_seen_def)

lemma dd_append_table:
  "distinct ks \<Longrightarrow>
   dd_append k v (map (\<lambda>t. (t, f t)) ks) =
     (if k \<in> set ks then map (\<lambda>t. (t, if t = k then f t @ [v] else f t)) ks
      else map (\<lambda>t. (t, f t)) ks @ [(k, [v])])"
proof (induction ks)
  case Nil
  then show ?case by simp
next
  case (Cons a ks)
  show ?case
  proof (cases "k = a")
    case True
    then have "k \<notin> set ks" using Cons.prems by simp
    then have "map (\<lambda>t. (t, if t = k then f t @ [v] else f t)) ks = map (\<lambda>t. (t, f t)) ks"
      by (intro map_cong) auto
    with True show ?thesis by simp
  next
    case False
    with Cons show ?thesis by simp
  qed
qed

lemma foldl_dd_append:
  "foldl (\<lambda>acc r. dd_append (key r) (val r) acc) [] rows =
     map (\<lambda>t. (t, map val (filter (\<lambda>r. key r = t) rows))) (first_seen (map key rows))"
proof (induction rows rule: rev_induct)
  case Nil
  then show ?case by (simp add: first_seen_def)
next
  case (snoc r rows)
  define f where "f = (\<lambda>t. map val (filter (\<lambda>r. key r = t) rows))"
  define g where "g = (\<lambda>t. map val (filter (\<lambda>r'. key r' = t) (rows @ [r])))"
  define ks where "ks = first_seen (map key rows)"
  have ks: "set ks = key ` set rows" "distinct ks"
    by (simp_all add: ks_def)
  have g: "g t = (if t = key r then f t @ [val r] else f t)" for t
    by (auto simp: f_def g_def)
  have step: "foldl (\<lambda>acc r. dd_append (key r) (val r) acc) [] (rows @ [r]) =
      dd_append (key r) (val r) (map (\<lambda>t. (t, f t)) ks)"
    using snoc.IH by (simp add: f_def ks_def)
  have goal: "map (\<lambda>t. (t, map val (filter (\<lambda>r'. key r' = t) (rows @ [r]))))
                (first_seen (map key (rows @ [r]))) =
              map (\<lambda>t. (t, g t)) (if key r \<in> set ks then ks else ks @ [key r])"
    by (simp add: g_def ks_def first_seen_snoc del: set_map)
  show ?case
  proof (cases "key r \<in> set ks")
    case True
    then have "dd_append (key r) (val r) (map (\<lambda>t. (t, f t)) ks) =
        map (\<lambda>t. (t, if t = key r then f t @ [val r] else f t)) ks"
      using ks(2) by (simp add: dd_append_table)
    also have "\<dots> = map (\<lambda>t. (t, g t)) ks"
      by (simp only: g)
    finally show ?thesis
      unfolding step goal using True by simp
  next
    case False
    then have none: "f (key r) = []"
      unfolding ks by (auto simp: f_def filter_empty_conv image_iff)
    from False have a: "dd_append (key r) (val r) (map (\<lambda>t. (t, f t)) ks) =
        map (\<lambda>t. (t, f t)) ks @ [(key r, [val r])]"
      using ks(2) by (simp add: dd_append_table)
    have b: "map (\<lambda>t. (t, f t)) ks = map (\<lambda>t. (t, g t)) ks"
      using False by (intro map_cong) (auto simp: g)
    have c: "[(key r, [val r])] = [(key r, g (key r))]"
      by (simp add: g none)
    have "dd_append (key r) (val r) (map (\<lambda>t. (t, f t)) ks) =
        map (\<lambda>t. (t, g t)) ks @ [(key r, g (key r))]"
      unfolding a unfolding b c ..
    then show ?thesis
      unfolding step goal using False by simp
  qed
qed

lemma edges_loop_char:
  "edges_loop rows ids bt =
     (case find (\<lambda>r. py_strip (from_event_id r) \<notin> ids \<or> py_strip (to_event_id r) \<notin> ids) rows of
        Some r \<Rightarrow> Inl (UnknownEdgeEvent (py_strip (from_event_id r)) (py_strip (to_event_id r)))
      | None \<Rightarrow>
          Inr (foldl (\<lambda>acc r. dd_append (py_strip (edge_track_id r))
                          \<lparr>oe_from_event_id = py_strip (from_event_id r),
                            oe_to_event_id = py_strip (to_event_id r),
                            oe_relation_type = asc ''before''\<rparr> acc) bt rows))"
  by (induction rows arbitrary: bt)
    (simp_all add: Let_def normalize_relation_before split: option.splits
       del: disj_not1 de_Morgan_conj)

text \<open>
  Claim C9. \<open>normalize_edges\<close> raises for the first row with an endpoint that is no known
  event, and for nothing else. Otherwise its payload has the tracks of the rows in the
  order of their first appearance, and under each track one edge for every row of that
  track, in the order of the rows: the stripped endpoints of the row and the relation type
  \<open>before\<close>. The column \<open>relation_type\<close> appears nowhere in the result: whatever it
  holds is rewritten to \<open>before\<close> and never raises.
\<close>

theorem normalize_edges_always_before:
  "normalize_edges rows ids =
     (case find (\<lambda>r. py_strip (from_event_id r) \<notin> ids \<or> py_strip (to_event_id r) \<notin> ids) rows of
        Some r \<Rightarrow> Inl (UnknownEdgeEvent (py_strip (from_event_id r)) (py_strip (to_event_id r)))
      | None \<Rightarrow>
          Inr (map (\<lambda>t. (t, map (\<lambda>r. \<lparr>oe_from_event_id = py_strip (from_event_id r),
                                       oe_to_event_id = py_strip (to_event_id r),
                                       oe_relation_type = asc ''before''\<rparr>)
                              (filter (\<lambda>r. py_strip (edge_track_id r) = t) rows)))
                 (rev (remdups (rev (map (\<lambda>r. py_strip (edge_track_id r)) rows))))))"
  unfolding normalize_edges_def edges_loop_char foldl_dd_append first_seen_def ..

text \<open>
  Three edge rows on two tracks, with relation types that are not \<open>before\<close> and a padded
  endpoint.
\<close>

definition edge_ex :: "pystr \<Rightarrow> pystr \<Rightarrow> pystr \<Rightarrow> pystr \<Rightarrow> edge_row" where
  "edge_ex frm to rel track = \<lparr>edge_id = asc ''EDG000001'', from_event_id = frm,
     to_event_id = to, relation_type = rel,
     basis_reference = asc ''x'', edge_track_id = track\<rparr>"

definition edges_ex :: "edge_row list" where
  "edges_ex =
     [edge_ex (asc ''E1'') (asc ''E2 '') (asc ''after'') (asc ''main''),
      edge_ex (asc ''E2'') (asc ''E3'') (asc ''overlaps'') (asc ''side''),
      edge_ex (asc ''E2'') (asc ''E3'') (asc '''') (asc ''main'')]"

theorem normalize_edges_always_before_witness:
  "normalize_edges edges_ex {asc ''E1'', asc ''E2'', asc ''E3''} =
     Inr [(asc ''main'',
           [\<lparr>oe_from_event_id = asc ''E1'', oe_to_event_id = asc ''E2'',
             oe_relation_type = asc ''before''\<rparr>,
            \<lparr>oe_from_event_id = asc ''E2'', oe_to_event_id = asc ''E3'',
             oe_relation_type = asc ''before''\<rparr>]),
          (asc ''side'',
           [\<lparr>oe_from_event_id = asc ''E2'', oe_to_event_id = asc ''E3'',
             oe_relation_type = asc ''before''\<rparr>])] \<and>
   normalize_edges edges_ex {asc ''E1'', asc ''E2''} =
     Inl (UnknownEdgeEvent (asc ''E2'') (asc ''E3''))"
  unfolding normalize_edges_always_before[of edges_ex]
  by (simp add: edges_ex_def edge_ex_def py_strip_def asc_def isspace_def)

section \<open>The normalizer: events\<close>

lemma normalize_events_loop_ok:
  "distinct (map (\<lambda>r. py_strip (event_id r)) rows) \<Longrightarrow>
   \<forall>r \<in> set rows. py_strip (event_id r) \<notin> seen \<Longrightarrow>
   \<forall>r \<in> set rows. to_int (sequence_index r) = Some (seq r) \<Longrightarrow>
   normalize_events_loop to_int rows seen acc =
     Inr (acc @ map (\<lambda>r. \<lparr>ev_event_id = py_strip (event_id r),
                           ev_lane_tag = py_strip (lane_tag r),
                           ev_sequence_index = seq r,
                           ev_book = py_strip (book r),
                           ev_event_title = py_strip (event_title r),
                           ev_event_summary = py_strip (event_summary r),
                           ev_certainty_level =
                             (if py_strip (certainty_level r) \<in> CERTAINTY_SET
                              then py_strip (certainty_level r) else asc ''medium'')\<rparr>) rows)"
proof (induction rows arbitrary: seen acc)
  case Nil
  then show ?case by simp
next
  case (Cons row rows)
  have seq: "to_int (sequence_index row) = Some (seq row)"
    using Cons.prems(3) by simp
  have fresh: "py_strip (event_id row) \<notin> seen"
    using Cons.prems(2) by simp
  have d: "distinct (map (\<lambda>r. py_strip (event_id r)) rows)"
    using Cons.prems(1) by simp
  have f: "\<forall>r \<in> set rows. py_strip (event_id r) \<notin> insert (py_strip (event_id row)) seen"
  proof
    fix r assume r: "r \<in> set rows"
    then have "py_strip (event_id r) \<in> set (map (\<lambda>r. py_strip (event_id r)) rows)"
      by (simp add: image_iff) blast
    then have "py_strip (event_id r) \<noteq> py_strip (event_id row)"
      using Cons.prems(1) by auto
    then show "py_strip (event_id r) \<notin> insert (py_strip (event_id row)) seen"
      using Cons.prems(2) r by simp
  qed
  have s: "\<forall>r \<in> set rows. to_int (sequence_index r) = Some (seq r)"
    using Cons.prems(3) by simp
  show ?case
    using seq fresh Cons.IH[OF d f s]
    by (simp add: Let_def normalize_certainty_def)
qed

lemma normalize_events_loop_certainty_irrelevant:
  "(normalize_events_loop to_int (map (\<lambda>r. r\<lparr>certainty_level := g r\<rparr>) rows) seen acc' = Inl e) =
   (normalize_events_loop to_int rows seen acc = Inl e)"
  by (induction rows arbitrary: seen acc acc') (simp_all add: Let_def split: option.splits)

text \<open>
  Claim C8, as amended. No certainty level makes \<open>normalize_events\<close> reject a table: it
  raises the same errors whatever the column \<open>certainty_level\<close> holds (the rows may carry
  any values \<open>g r\<close> there). A table with pairwise different stripped event ids and
  sequence indexes that \<open>int\<close> reads is not rejected: the result is one event per row,
  sorted by sequence index, and the event of a row carries the stripped certainty level
  when that is one of high, medium, low, disputed, and \<open>medium\<close> otherwise.
\<close>

theorem normalize_events_certainty_default:
  assumes "distinct (map (\<lambda>r. py_strip (event_id r)) rows)"
    and "\<forall>r \<in> set rows. to_int (sequence_index r) = Some (seq r)"
  shows "normalize_events to_int rows =
           Inr (sort_key ev_sequence_index
                  (map (\<lambda>r. \<lparr>ev_event_id = py_strip (event_id r),
                              ev_lane_tag = py_strip (lane_tag r),
                              ev_sequence_index = seq r,
                              ev_book = py_strip (book r),
                              ev_event_title = py_strip (event_title r),
                              ev_event_summary = py_strip (event_summary r),
                              ev_certainty_level =
                                (if py_strip (certainty_level r) \<in> CERTAINTY_SET
                                 then py_strip (certainty_level r) else asc ''medium'')\<rparr>) rows)) \<and>
         (\<forall>rows' g e. (normalize_events to_int (map (\<lambda>r. r\<lparr>certainty_level := g r\<rparr>) rows') = Inl e) =
                      (normalize_events to_int rows' = Inl e))"
proof
  show "normalize_events to_int rows =
           Inr (sort_key ev_sequence_index
                  (map (\<lambda>r. \<lparr>ev_event_id = py_strip (event_id r),
                              ev_lane_tag = py_strip (lane_tag r),
                              ev_sequence_index = seq r,
                              ev_book = py_strip (book r),
                              ev_event_title = py_strip (event_title r),
                              ev_event_summary = py_strip (event_summary r),
                              ev_certainty_level =
                                (if py_strip (certainty_level r) \<in> CERTAINTY_SET
                                 then py_strip (certainty_level r) else asc ''medium'')\<rparr>) rows))"
    using normalize_events_loop_ok[OF assms(1) _ assms(2), of "{}" "[]"]
    by (simp add: normalize_events_def)
next
  show "\<forall>rows' g e. (normalize_events to_int (map (\<lambda>r. r\<lparr>certainty_level := g r\<rparr>) rows') = Inl e) =
                      (normalize_events to_int rows' = Inl e)"
  proof (intro allI)
    fix rows' :: "events_row list" and g e
    show "(normalize_events to_int (map (\<lambda>r. r\<lparr>certainty_level := g r\<rparr>) rows') = Inl e) =
          (normalize_events to_int rows' = Inl e)"
    proof -
      have "(normalize_events to_int rs = Inl e) = (normalize_events_loop to_int rs {} [] = Inl e)"
        for rs
        by (simp add: normalize_events_def split: sum.splits)
      then show ?thesis
        using normalize_events_loop_certainty_irrelevant[of to_int g rows' "{}" "[]" e "[]"]
        by (simp only:)
    qed
  qed
qed

text \<open>
  Three event rows, given out of order: an unknown certainty level, one padded with a
  blank, and a known one.
\<close>

definition row_ex :: "pystr \<Rightarrow> pystr \<Rightarrow> pystr \<Rightarrow> events_row" where
  "row_ex eid seq certainty = \<lparr>event_id = eid, testament = asc ''OT'', book = asc ''b'',
     event_title = asc ''t'', event_summary = asc ''s'', lane_tag = asc ''other'',
     sequence_index = seq, track_id = asc ''track_main'', certainty_level = certainty\<rparr>"

definition event_ex :: "pystr \<Rightarrow> int \<Rightarrow> pystr \<Rightarrow> event" where
  "event_ex eid seq certainty = \<lparr>ev_event_id = eid, ev_lane_tag = asc ''other'',
     ev_sequence_index = seq, ev_book = asc ''b'', ev_event_title = asc ''t'',
     ev_event_summary = asc ''s'', ev_certainty_level = certainty\<rparr>"

definition rows_ex :: "events_row list" where
  "rows_ex =
     [row_ex (asc ''E3'') (asc ''3'') (asc ''certain''),
      row_ex (asc ''E1'') (asc ''1'') (asc '' high''),
      row_ex (asc ''E2'') (asc ''2'') (asc ''low'')]"

lemma rows_ex_hyps:
  "distinct (map (\<lambda>r. py_strip (event_id r)) rows_ex)"
  "\<forall>r \<in> set rows_ex. decimal_int (sequence_index r) = Some (the (decimal_int (sequence_index r)))"
  by (simp_all add: rows_ex_def row_ex_def decimal_int_def py_strip_def asc_def isspace_def)

theorem normalize_events_certainty_default_witness:
  "normalize_events decimal_int rows_ex =
     Inr [event_ex (asc ''E1'') 1 (asc ''high''),
          event_ex (asc ''E2'') 2 (asc ''low''),
          event_ex (asc ''E3'') 3 (asc ''medium'')]"
  unfolding normalize_events_certainty_default[OF rows_ex_hyps, THEN conjunct1]
  by (simp add: rows_ex_def row_ex_def event_ex_def CERTAINTY_SET_def decimal_int_def
        py_strip_def asc_def isspace_def)

text \<open>
  The claim as stated fails on a padded value: \<open>" high"\<close> is none of the four levels, and
  the event comes out with \<open>high\<close>, not with \<open>medium\<close>.
\<close>

theorem normalize_events_padded_certainty:
  "asc '' high'' \<notin> CERTAINTY_SET \<and>
   normalize_events decimal_int [row_ex (asc ''E1'') (asc ''1'') (asc '' high'')] =
     Inr [event_ex (asc ''E1'') 1 (asc ''high'')]"
  by (simp add: normalize_events_def row_ex_def event_ex_def Let_def normalize_certainty_def
        CERTAINTY_SET_def decimal_int_def py_strip_def asc_def isspace_def)

section \<open>The normalizer: evidence\<close>

definition rows_of :: "pystr \<Rightarrow> evidence_row list \<Rightarrow> evidence_row list" where
  "rows_of e rows = filter (\<lambda>r. py_strip (evd_event_id r) = e) rows"

definition fill_bucket :: "bucket \<Rightarrow> evidence_row list \<Rightarrow> bucket" where
  "fill_bucket b rs = foldl (\<lambda>b r. add_evidence r b) b rs"

lemma fill_bucket_simps [simp]:
  "fill_bucket b [] = b"
  "fill_bucket b (r # rs) = fill_bucket (add_evidence r b) rs"
  by (simp_all add: fill_bucket_def)

lemma direct_fill_bucket:
  "direct (fill_bucket b rs) = direct b @ map base_of (filter (\<lambda>r. tier_of r \<noteq> asc ''parallel'') rs)"
  by (induction rs arbitrary: b) (simp_all add: add_evidence_def)

lemma parallel_fill_bucket:
  "parallel (fill_bucket b rs) =
     parallel b @ map (\<lambda>r. (base_of r)\<lparr>oe_note := Some (py_strip (evd_note r))\<rparr>)
                    (filter (\<lambda>r. tier_of r = asc ''parallel'') rs)"
  by (induction rs arbitrary: b) (simp_all add: add_evidence_def)

lemma evidence_loop_ok:
  "\<forall>r \<in> set rows. by_event (py_strip (evd_event_id r)) \<noteq> None \<Longrightarrow>
   evidence_loop rows by_event ts =
     Inr (\<lambda>e. map_option (\<lambda>b. fill_bucket b (rows_of e rows)) (by_event e),
          fold (\<lambda>r. List.insert (py_strip (translation r))) rows ts)"
proof (induction rows arbitrary: by_event ts)
  case Nil
  have "(\<lambda>e. map_option (\<lambda>b. b) (by_event e)) = by_event"
    by (rule ext) (simp add: option.map_ident)
  then show ?case by (simp add: rows_of_def)
next
  case (Cons row rows)
  let ?eid = "py_strip (evd_event_id row)"
  obtain b where b: "by_event ?eid = Some b"
    using Cons.prems by auto
  let ?m = "by_event(?eid \<mapsto> add_evidence row b)"
  have "\<forall>r \<in> set rows. ?m (py_strip (evd_event_id r)) \<noteq> None"
    using Cons.prems by simp
  from Cons.IH[OF this]
  have rec: "evidence_loop rows ?m (List.insert (py_strip (translation row)) ts) =
     Inr (\<lambda>e. map_option (\<lambda>b. fill_bucket b (rows_of e rows)) (?m e),
          fold (\<lambda>r. List.insert (py_strip (translation r))) rows
            (List.insert (py_strip (translation row)) ts))" .
  have "(\<lambda>e. map_option (\<lambda>b. fill_bucket b (rows_of e rows)) (?m e)) =
        (\<lambda>e. map_option (\<lambda>b. fill_bucket b (rows_of e (row # rows))) (by_event e))"
    by (rule ext) (simp add: rows_of_def b)
  with rec show ?case
    by (simp add: Let_def b)
qed

lemma evidence_loop_unknown:
  "\<exists>r \<in> set rows. by_event (py_strip (evd_event_id r)) = None \<Longrightarrow>
   \<exists>err. evidence_loop rows by_event ts = Inl err"
proof (induction rows arbitrary: by_event ts)
  case Nil
  then show ?case by simp
next
  case (Cons row rows)
  show ?case
  proof (cases "by_event (py_strip (evd_event_id row))")
    case None
    then show ?thesis by (simp add: Let_def)
  next
    case (Some b)
    let ?m = "by_event(py_strip (evd_event_id row) \<mapsto> add_evidence row b)"
    from Cons.prems Some obtain r where "r \<in> set rows" "by_event (py_strip (evd_event_id r)) = None"
      by auto
    then have "\<exists>r \<in> set rows. ?m (py_strip (evd_event_id r)) = None"
      using Some by (intro bexI[of _ r]) auto
    from Cons.IH[OF this, of "List.insert (py_strip (translation row)) ts"]
    obtain err where
      "evidence_loop rows ?m (List.insert (py_strip (translation row)) ts) = Inl err" ..
    then show ?thesis
      by (simp add: Let_def Some)
  qed
qed

lemma first_missing_direct_None:
  "first_missing_direct eids by_event = None \<longleftrightarrow>
   (\<forall>e \<in> set eids. \<forall>b. by_event e = Some b \<longrightarrow> direct b \<noteq> [])"
  by (induction eids) (auto split: option.splits)

lemma set_fold_insert:
  "set (fold (\<lambda>r. List.insert (f r)) rows ts) = set ts \<union> f ` set rows"
  by (induction rows arbitrary: ts) auto

lemma distinct_fold_insert:
  "distinct ts \<Longrightarrow> distinct (fold (\<lambda>r. List.insert (f r)) rows ts)"
  by (induction rows arbitrary: ts) auto

lemma initial_by_event:
  "map_of (map (\<lambda>eid. (eid, empty_bucket)) ids) e = (if e \<in> set ids then Some empty_bucket else None)"
  by (induction ids) auto

lemma singleton_list:
  assumes "distinct xs" "card (set xs) = 1"
  shows "\<exists>x. xs = [x]"
proof -
  from assms have "length xs = 1" by (simp add: distinct_card)
  then show ?thesis by (cases xs) auto
qed


lemma normalize_evidence_buckets:
  assumes "normalize_evidence rows ids = Inr (by_event, t, n)" and "e \<in> set ids"
  shows "by_event e = Some (fill_bucket empty_bucket (rows_of e rows))"
proof -
  let ?init = "map_of (map (\<lambda>eid. (eid, empty_bucket)) ids)"
  have known: "\<forall>r \<in> set rows. ?init (py_strip (evd_event_id r)) \<noteq> None"
  proof (rule ccontr)
    assume "\<not> ?thesis"
    then have "\<exists>r \<in> set rows. ?init (py_strip (evd_event_id r)) = None" by simp
    from evidence_loop_unknown[OF this, of "[]"] show False
      using assms(1) by (auto simp: normalize_evidence_def)
  qed
  from assms(1) have "by_event = (\<lambda>e. map_option (\<lambda>b. fill_bucket b (rows_of e rows)) (?init e))"
    unfolding normalize_evidence_def evidence_loop_ok[OF known]
    by (auto split: list.splits option.splits)
  then show ?thesis
    using assms(2) by (simp add: initial_by_event)
qed

lemma normalize_evidence_succeeds:
  assumes known: "\<forall>r \<in> set rows. py_strip (evd_event_id r) \<in> set ids"
    and single: "card ((\<lambda>r. py_strip (translation r)) ` set rows) = 1"
    and direct: "\<forall>e \<in> set ids. \<exists>r \<in> set rows. py_strip (evd_event_id r) = e \<and> tier_of r \<noteq> asc ''parallel''"
  shows "\<exists>res. normalize_evidence rows ids = Inr res"
proof -
  let ?init = "map_of (map (\<lambda>eid. (eid, empty_bucket)) ids)"
  let ?m = "\<lambda>e. map_option (\<lambda>b. fill_bucket b (rows_of e rows)) (?init e)"
  let ?ts = "fold (\<lambda>r. List.insert (py_strip (translation r))) rows []"
  have "\<forall>r \<in> set rows. ?init (py_strip (evd_event_id r)) \<noteq> None"
    using known by (simp add: initial_by_event)
  then have loop: "evidence_loop rows ?init [] = Inr (?m, ?ts)"
    by (rule evidence_loop_ok)
  have "distinct ?ts" "card (set ?ts) = 1"
    using single by (simp_all add: distinct_fold_insert set_fold_insert)
  then obtain t where t: "?ts = [t]"
    using singleton_list by blast
  have "direct b \<noteq> []" if "e \<in> set ids" "?m e = Some b" for e b
  proof -
    from direct that(1) obtain r where r: "r \<in> set rows" "py_strip (evd_event_id r) = e"
      "tier_of r \<noteq> asc ''parallel''" by blast
    then have "r \<in> set (filter (\<lambda>r. tier_of r \<noteq> asc ''parallel'') (rows_of e rows))"
      by (simp add: rows_of_def)
    then have "filter (\<lambda>r. tier_of r \<noteq> asc ''parallel'') (rows_of e rows) \<noteq> []"
      by (metis empty_iff list.set(1))
    moreover have "b = fill_bucket empty_bucket (rows_of e rows)"
      using that by (auto simp: initial_by_event)
    ultimately show ?thesis
      by (simp add: direct_fill_bucket)
  qed
  then have "first_missing_direct ids ?m = None"
    unfolding first_missing_direct_None by blast
  then show ?thesis
    by (simp add: normalize_evidence_def loop t)
qed

lemma normalize_evidence_missing_direct:
  assumes "e \<in> set ids"
    and "\<forall>r \<in> set rows. py_strip (evd_event_id r) = e \<longrightarrow> tier_of r = asc ''parallel''"
  shows "\<exists>err. normalize_evidence rows ids = Inl err"
proof (cases "normalize_evidence rows ids")
  case (Inl err)
  then show ?thesis by blast
next
  case (Inr res)
  obtain by_event t n where res: "res = (by_event, t, n)"
    by (cases res) auto
  let ?init = "map_of (map (\<lambda>eid. (eid, empty_bucket)) ids)"
  from normalize_evidence_buckets[OF Inr[unfolded res] assms(1)]
  have b: "by_event e = Some (fill_bucket empty_bucket (rows_of e rows))" .
  have "filter (\<lambda>r. tier_of r \<noteq> asc ''parallel'') (rows_of e rows) = []"
    using assms(2) by (auto simp: rows_of_def filter_empty_conv)
  then have "direct (fill_bucket empty_bucket (rows_of e rows)) = []"
    by (simp add: direct_fill_bucket empty_bucket_def)
  with b assms(1) have "first_missing_direct ids by_event \<noteq> None"
    unfolding first_missing_direct_None by auto
  moreover from Inr res have "first_missing_direct ids by_event = None"
    by (auto simp: normalize_evidence_def split: sum.splits list.splits option.splits)
  ultimately show ?thesis by simp
qed

text \<open>
  Claim C10. When \<open>normalize_evidence\<close> returns, the parallel bucket of every event holds
  exactly its rows whose tier, stripped and lowercased, equals \<open>parallel\<close>, and the direct
  bucket holds all its other rows, whatever their tier says. Hence rows of any tier but
  \<open>parallel\<close> satisfy the check for direct evidence: with known event ids, one translation
  label and, for every event, a row whose normalised tier differs from \<open>parallel\<close>, the
  function returns.
\<close>

theorem normalize_evidence_tier_classification:
  "(normalize_evidence rows ids = Inr (by_event, t, n) \<longrightarrow>
      (\<forall>e \<in> set ids.
          by_event e =
            Some \<lparr>direct =
                    map base_of
                      (filter (\<lambda>r. py_strip (evd_event_id r) = e \<and>
                                   py_lower (py_strip (evidence_tier r)) \<noteq> asc ''parallel'') rows),
                  parallel =
                    map (\<lambda>r. (base_of r)\<lparr>oe_note := Some (py_strip (evd_note r))\<rparr>)
                      (filter (\<lambda>r. py_strip (evd_event_id r) = e \<and>
                                   py_lower (py_strip (evidence_tier r)) = asc ''parallel'') rows)\<rparr>)) \<and>
   ((\<forall>r \<in> set rows. py_strip (evd_event_id r) \<in> set ids) \<and>
    card ((\<lambda>r. py_strip (translation r)) ` set rows) = 1 \<and>
    (\<forall>e \<in> set ids. \<exists>r \<in> set rows.
        py_strip (evd_event_id r) = e \<and>
        py_lower (py_strip (evidence_tier r)) \<noteq> asc ''parallel'') \<longrightarrow>
    (\<exists>res. normalize_evidence rows ids = Inr res))"
proof (intro conjI impI ballI)
  fix e
  assume res: "normalize_evidence rows ids = Inr (by_event, t, n)" and e: "e \<in> set ids"
  let ?b = "fill_bucket empty_bucket (rows_of e rows)"
  have "by_event e = Some ?b"
    using normalize_evidence_buckets[OF res e] .
  moreover have "direct ?b = map base_of
      (filter (\<lambda>r. py_strip (evd_event_id r) = e \<and>
                   py_lower (py_strip (evidence_tier r)) \<noteq> asc ''parallel'') rows)"
    by (simp add: direct_fill_bucket empty_bucket_def rows_of_def tier_of_def)
  moreover have "parallel ?b = map (\<lambda>r. (base_of r)\<lparr>oe_note := Some (py_strip (evd_note r))\<rparr>)
      (filter (\<lambda>r. py_strip (evd_event_id r) = e \<and>
                   py_lower (py_strip (evidence_tier r)) = asc ''parallel'') rows)"
    by (simp add: parallel_fill_bucket empty_bucket_def rows_of_def tier_of_def)
  ultimately show "by_event e =
      Some \<lparr>direct =
              map base_of
                (filter (\<lambda>r. py_strip (evd_event_id r) = e \<and>
                             py_lower (py_strip (evidence_tier r)) \<noteq> asc ''parallel'') rows),
            parallel =
              map (\<lambda>r. (base_of r)\<lparr>oe_note := Some (py_strip (evd_note r))\<rparr>)
                (filter (\<lambda>r. py_strip (evd_event_id r) = e \<and>
                             py_lower (py_strip (evidence_tier r)) = asc ''parallel'') rows)\<rparr>"
    by (cases ?b) simp
next
  assume "(\<forall>r \<in> set rows. py_strip (evd_event_id r) \<in> set ids) \<and>
    card ((\<lambda>r. py_strip (translation r)) ` set rows) = 1 \<and>
    (\<forall>e \<in> set ids. \<exists>r \<in> set rows.
        py_strip (evd_event_id r) = e \<and>
        py_lower (py_strip (evidence_tier r)) \<noteq> asc ''parallel'')"
  then show "\<exists>res. normalize_evidence rows ids = Inr res"
    by (intro normalize_evidence_succeeds) (auto simp: tier_of_def)
qed

text \<open>
  Two rows of one event: a tier \<open>" Parallel"\<close> and a misspelled tier \<open>dirct\<close>. The first
  is filed as parallel, the second as direct, and the normalization succeeds.
\<close>

definition row_par :: evidence_row where
  "row_par = \<lparr>evidence_id = asc ''EVD0000001'', evd_event_id = asc ''EVT0001'',
     evidence_tier = asc '' Parallel'', reference = asc ''r1'', verse_text_kr = asc ''v1'',
     translation = asc ''KRV'', is_parallel = asc ''true'', evd_note = asc ''n1''\<rparr>"

definition row_typo :: evidence_row where
  "row_typo = \<lparr>evidence_id = asc ''EVD0000002'', evd_event_id = asc ''EVT0001'',
     evidence_tier = asc ''dirct'', reference = asc ''r2'', verse_text_kr = asc ''v2'',
     translation = asc ''KRV'', is_parallel = asc ''false'', evd_note = asc ''''\<rparr>"

lemma evidence_ex_result:
  "\<exists>by_event. normalize_evidence [row_par, row_typo] [asc ''EVT0001''] = Inr (by_event, asc ''KRV'', 2)"
  by (simp add: normalize_evidence_def row_par_def row_typo_def Let_def empty_bucket_def
      total_evidence_def add_evidence_def tier_of_def base_of_def py_lower_def lower_cp_def
      py_strip_def asc_def isspace_def)

theorem normalize_evidence_tier_classification_witness:
  "\<exists>by_event. normalize_evidence [row_par, row_typo] [asc ''EVT0001''] = Inr (by_event, asc ''KRV'', 2) \<and>
     by_event (asc ''EVT0001'') =
       Some \<lparr>direct = [\<lparr>oe_reference = asc ''r2'', oe_verse_text_kr = asc ''v2'', oe_note = None\<rparr>],
             parallel = [\<lparr>oe_reference = asc ''r1'', oe_verse_text_kr = asc ''v1'',
                          oe_note = Some (asc ''n1'')\<rparr>]\<rparr>"
proof -
  from evidence_ex_result obtain by_event where
    res: "normalize_evidence [row_par, row_typo] [asc ''EVT0001''] = Inr (by_event, asc ''KRV'', 2)" ..
  have "by_event (asc ''EVT0001'') =
       Some \<lparr>direct = [\<lparr>oe_reference = asc ''r2'', oe_verse_text_kr = asc ''v2'', oe_note = None\<rparr>],
             parallel = [\<lparr>oe_reference = asc ''r1'', oe_verse_text_kr = asc ''v1'',
                          oe_note = Some (asc ''n1'')\<rparr>]\<rparr>"
    using normalize_evidence_tier_classification[of "[row_par, row_typo]" "[asc ''EVT0001'']"
        by_event "asc ''KRV''" 2] res
    by (simp add: row_par_def row_typo_def base_of_def py_lower_def lower_cp_def
        py_strip_def asc_def isspace_def)
  with res show ?thesis by blast
qed

section \<open>The quota allocator: sums and caps\<close>













































section \<open>The cycle check: Kahn's traversal decides acyclicity\<close>

declare kahn_loop.simps [code]

definition induced :: "'a set \<Rightarrow> ('a \<times> 'a) list \<Rightarrow> ('a \<times> 'a) list" where
  "induced N edges = filter (\<lambda>e. fst e \<in> N \<and> snd e \<in> N) edges"

lemma add_edges_char:
  "add_edges N edges indeg outgoing =
     (\<lambda>n. indeg n + int (length (filter (\<lambda>e. snd e = n) (induced N edges))),
      \<lambda>n. outgoing n @ map snd (filter (\<lambda>e. fst e = n) (induced N edges)))"
proof (induction N edges indeg outgoing rule: add_edges.induct)
  case (1 N indeg outgoing)
  show ?case by (simp add: induced_def)
next
  case (2 N src dst edges indeg outgoing)
  show ?case
  proof (cases "src \<notin> N \<or> dst \<notin> N")
    case True
    then show ?thesis using 2(1) by (auto simp: induced_def)
  next
    case False
    then have "add_edges N ((src, dst) # edges) indeg outgoing =
      add_edges N edges (indeg(dst := indeg dst + 1)) (outgoing(src := outgoing src @ [dst]))"
      by simp
    also note 2(2)[OF False]
    also have "(\<lambda>n. (indeg(dst := indeg dst + 1)) n + int (length (filter (\<lambda>e. snd e = n) (induced N edges)))) =
      (\<lambda>n. indeg n + int (length (filter (\<lambda>e. snd e = n) (induced N ((src, dst) # edges)))))"
      using False by (auto simp: induced_def fun_eq_iff)
    also have "(\<lambda>n. (outgoing(src := outgoing src @ [dst])) n @ map snd (filter (\<lambda>e. fst e = n) (induced N edges))) =
      (\<lambda>n. outgoing n @ map snd (filter (\<lambda>e. fst e = n) (induced N ((src, dst) # edges))))"
      using False by (auto simp: induced_def fun_eq_iff)
    finally show ?thesis .
  qed
qed

lemma relax_char:
  "\<exists>ps. relax ds indeg queue = (\<lambda>n. indeg n - int (count_list ds n), queue @ ps) \<and>
        distinct ps \<and>
        set ps = {n \<in> set ds. 0 < indeg n \<and> indeg n \<le> int (count_list ds n)}"
proof (induction ds arbitrary: indeg queue)
  case Nil
  show ?case by simp
next
  case (Cons d ds)
  let ?indeg = "indeg(d := indeg d - 1)"
  let ?queue = "if ?indeg d = 0 then queue @ [d] else queue"
  from Cons.IH[of ?indeg ?queue] obtain ps where
    r: "relax ds ?indeg ?queue = (\<lambda>n. ?indeg n - int (count_list ds n), ?queue @ ps)"
    and dist: "distinct ps"
    and ps: "set ps = {n \<in> set ds. 0 < ?indeg n \<and> ?indeg n \<le> int (count_list ds n)}"
    by blast
  have f: "(\<lambda>n. ?indeg n - int (count_list ds n)) = (\<lambda>n. indeg n - int (count_list (d # ds) n))"
    by (auto simp: fun_eq_iff)
  have mem: "n \<in> set ds" if "0 < count_list ds n" for n
    using that by (metis count_list_0_iff less_numeral_extra(3))
  show ?case
  proof (cases "indeg d = 1")
    case True
    have "d \<notin> set ps" using ps True by simp
    moreover have "set (d # ps) = {n \<in> set (d # ds). 0 < indeg n \<and> indeg n \<le> int (count_list (d # ds) n)}"
      using ps True by auto
    moreover have "relax (d # ds) indeg queue =
        (\<lambda>n. indeg n - int (count_list (d # ds) n), queue @ (d # ps))"
      using r True unfolding f[symmetric] by (simp add: Let_def)
    ultimately show ?thesis
      using dist by (intro exI[of _ "d # ps"]) simp
  next
    case False
    have "set ps = {n \<in> set (d # ds). 0 < indeg n \<and> indeg n \<le> int (count_list (d # ds) n)}"
      unfolding ps using False mem[of d] by (auto; linarith?)
    moreover have "relax (d # ds) indeg queue =
        (\<lambda>n. indeg n - int (count_list (d # ds) n), queue @ ps)"
      using r False unfolding f[symmetric] by (simp add: Let_def)
    ultimately show ?thesis
      using dist by (intro exI[of _ ps]) simp
  qed
qed

lemma no_source_cycle:
  assumes "finite S" "S \<noteq> {}" "\<forall>x \<in> S. \<exists>y \<in> S. (y, x) \<in> R"
  shows "\<not> acyclic R"
proof
  assume "acyclic R"
  then have "acyclic (R \<inter> S \<times> S)"
    by (rule acyclic_subset) simp
  moreover have "finite (R \<inter> S \<times> S)" using assms(1) by simp
  ultimately have "wf (R \<inter> S \<times> S)" by (simp add: finite_acyclic_wf)
  moreover from assms(2) obtain x where "x \<in> S" by blast
  ultimately obtain z where z: "z \<in> S" "\<And>y. (y, z) \<in> R \<inter> S \<times> S \<Longrightarrow> y \<notin> S"
    by (rule wfE_min) blast
  from assms(3) z(1) obtain y where "y \<in> S" "(y, z) \<in> R" by blast
  with z show False by blast
qed

lemma on_cycle_pred:
  assumes "(n, n) \<in> R\<^sup>+"
  shows "\<exists>p. (p, n) \<in> R \<and> (p, p) \<in> R\<^sup>+"
proof -
  from assms obtain p where "(n, p) \<in> R\<^sup>*" "(p, n) \<in> R"
    by (meson tranclD2)
  then have "(p, p) \<in> R\<^sup>+" by (meson rtrancl_into_trancl2)
  with \<open>(p, n) \<in> R\<close> show ?thesis by blast
qed

definition outgoing_of :: "('a \<times> 'a) list \<Rightarrow> 'a \<Rightarrow> 'a list" where
  "outgoing_of E n = map snd (filter (\<lambda>e. fst e = n) E)"

definition kahn_inv ::
  "'a set \<Rightarrow> ('a \<times> 'a) list \<Rightarrow> 'a set \<Rightarrow> ('a \<Rightarrow> int) \<Rightarrow> 'a list \<Rightarrow> bool" where
  "kahn_inv N E V indeg queue \<longleftrightarrow>
     V \<subseteq> N \<and> distinct queue \<and>
     (\<forall>n. indeg n = int (length (filter (\<lambda>e. snd e = n \<and> fst e \<notin> V) E))) \<and>
     set queue = {n \<in> N - V. indeg n = 0} \<and>
     (\<forall>n \<in> V. indeg n = 0) \<and>
     (\<forall>n \<in> V. (n, n) \<notin> (set E)\<^sup>+)"

lemma count_list_outgoing:
  "count_list (outgoing_of E cur) n = length (filter (\<lambda>e. fst e = cur \<and> snd e = n) E)"
  unfolding outgoing_of_def by (induction E) auto

lemma split_sources:
  assumes "cur \<notin> V"
  shows "length (filter (\<lambda>e. snd e = n \<and> fst e \<notin> V) E) =
         length (filter (\<lambda>e. snd e = n \<and> fst e \<notin> insert cur V) E) +
         length (filter (\<lambda>e. fst e = cur \<and> snd e = n) E)"
  using assms by (induction E) auto

lemma kahn_inv_step:
  assumes inv: "kahn_inv N E V indeg queue" and ne: "queue \<noteq> []"
    and within: "\<forall>e \<in> set E. fst e \<in> N \<and> snd e \<in> N"
  shows "last queue \<in> N - V \<and>
         kahn_inv N E (insert (last queue) V)
           (fst (relax (outgoing_of E (last queue)) indeg (butlast queue)))
           (snd (relax (outgoing_of E (last queue)) indeg (butlast queue)))"
proof -
  let ?cur = "last queue"
  let ?ds = "outgoing_of E ?cur"
  let ?V = "insert ?cur V"
  from inv have VN: "V \<subseteq> N" and dq: "distinct queue"
    and deg: "\<And>n. indeg n = int (length (filter (\<lambda>e. snd e = n \<and> fst e \<notin> V) E))"
    and qs: "set queue = {n \<in> N - V. indeg n = 0}"
    and vz: "\<forall>n \<in> V. indeg n = 0"
    and vc: "\<forall>n \<in> V. (n, n) \<notin> (set E)\<^sup>+"
    unfolding kahn_inv_def by blast+
  have cur: "?cur \<in> set queue" using ne by simp
  with qs have curN: "?cur \<in> N - V" and cur0: "indeg ?cur = 0" by auto
  then have curV: "?cur \<notin> V" by simp
  obtain ps where r: "relax ?ds indeg (butlast queue) =
        (\<lambda>n. indeg n - int (count_list ?ds n), butlast queue @ ps)"
    and dps: "distinct ps"
    and ps: "set ps = {n \<in> set ?ds. 0 < indeg n \<and> indeg n \<le> int (count_list ?ds n)}"
    using relax_char[of ?ds indeg "butlast queue"] by blast
  let ?indeg = "\<lambda>n. indeg n - int (count_list ?ds n)"
  have deg': "?indeg n = int (length (filter (\<lambda>e. snd e = n \<and> fst e \<notin> ?V) E))" for n
    using split_sources[OF curV, of n E] by (simp add: deg count_list_outgoing)
  have nonneg: "0 \<le> ?indeg n" for n by (simp only: deg')
  have ds_N: "set ?ds \<subseteq> N" using within by (auto simp: outgoing_of_def)
  have in_ds: "n \<in> set ?ds" if "0 < count_list ?ds n" for n
    using that by (metis count_list_0_iff less_numeral_extra(3))
  have bq: "set (butlast queue) = set queue - {?cur}"
  proof -
    obtain xs where xs: "queue = xs @ [?cur]"
      using ne by (metis append_butlast_last_id)
    with dq have "?cur \<notin> set xs" by (metis distinct_append distinct.simps(2) disjoint_insert(1) list.simps(15) not_distinct_conv_prefix)
    moreover have "butlast queue = xs" by (subst xs) simp
    moreover have "set queue = insert ?cur (set xs)" by (subst xs) simp
    ultimately show ?thesis by simp
  qed
  have q': "set (butlast queue @ ps) = {n \<in> N - ?V. ?indeg n = 0}"
  proof (intro set_eqI iffI)
    fix n assume "n \<in> set (butlast queue @ ps)"
    then consider "n \<in> set queue" "n \<noteq> ?cur" | "n \<in> set ps" using bq by auto
    then show "n \<in> {n \<in> N - ?V. ?indeg n = 0}"
    proof cases
      case 1
      with qs have "n \<in> N - V" "indeg n = 0" by auto
      with 1 nonneg[of n] show ?thesis by auto
    next
      case 2
      with ps have n: "n \<in> set ?ds" "0 < indeg n" "indeg n \<le> int (count_list ?ds n)" by auto
      with vz cur0 have "n \<notin> V" "n \<noteq> ?cur" by auto
      with n ds_N nonneg[of n] show ?thesis by auto
    qed
  next
    fix n assume "n \<in> {n \<in> N - ?V. ?indeg n = 0}"
    then have n: "n \<in> N" "n \<notin> V" "n \<noteq> ?cur" "?indeg n = 0" by auto
    show "n \<in> set (butlast queue @ ps)"
    proof (cases "indeg n = 0")
      case True
      with n qs have "n \<in> set queue" by simp
      with n bq show ?thesis by simp
    next
      case False
      moreover have "0 \<le> indeg n" by (simp only: deg)
      ultimately have pos: "0 < indeg n" by simp
      with n(4) have "0 < count_list ?ds n" by simp
      with in_ds pos n(4) ps show ?thesis by simp
    qed
  qed
  have "distinct (butlast queue @ ps)"
  proof -
    have "set (butlast queue) \<inter> set ps = {}"
      using bq qs ps by auto
    with dq dps show ?thesis by (simp add: distinct_butlast)
  qed
  moreover have "\<forall>n \<in> ?V. ?indeg n = 0"
  proof
    fix n assume "n \<in> ?V"
    with vz cur0 have "indeg n = 0" by auto
    with nonneg[of n] show "?indeg n = 0" by simp
  qed
  moreover have "(?cur, ?cur) \<notin> (set E)\<^sup>+"
  proof
    assume "(?cur, ?cur) \<in> (set E)\<^sup>+"
    then obtain p where p: "(p, ?cur) \<in> set E" "(p, p) \<in> (set E)\<^sup>+"
      using on_cycle_pred by metis
    have "filter (\<lambda>e. snd e = ?cur \<and> fst e \<notin> V) E = []"
      using deg[of ?cur] cur0 by simp
    with p(1) have "p \<in> V" by (auto simp: filter_empty_conv)
    with vc p(2) show False by blast
  qed
  ultimately have "kahn_inv N E ?V ?indeg (butlast queue @ ps)"
    unfolding kahn_inv_def using VN curN q' deg' vc by auto
  with curN r show ?thesis by simp
qed

lemma kahn_loop_total:
  assumes "kahn_inv N E V indeg queue" and "finite N"
    and within: "\<forall>e \<in> set E. fst e \<in> N \<and> snd e \<in> N"
  shows "\<exists>V' indeg'. kahn_inv N E V' indeg' [] \<and>
           kahn_loop (outgoing_of E) indeg queue (card V) = Some (card V')"
  using assms(1)
proof (induction "card (N - V)" arbitrary: V indeg queue rule: less_induct)
  case less
  show ?case
  proof (cases "queue = []")
    case True
    then have "kahn_loop (outgoing_of E) indeg queue (card V) = Some (card V)"
      by (subst kahn_loop.simps) simp
    with less.prems True show ?thesis by blast
  next
    case False
    let ?cur = "last queue"
    let ?r = "relax (outgoing_of E ?cur) indeg (butlast queue)"
    from kahn_inv_step[OF less.prems False within]
    have cur: "?cur \<in> N - V" and inv': "kahn_inv N E (insert ?cur V) (fst ?r) (snd ?r)"
      by blast+
    have finV: "finite V" using less.prems assms(2) by (auto simp: kahn_inv_def intro: finite_subset)
    have "card (N - insert ?cur V) < card (N - V)"
      using cur assms(2) by (intro psubset_card_mono) auto
    from less.hyps[OF this inv'] obtain V' indeg' where
      fin: "kahn_inv N E V' indeg' []"
      and res: "kahn_loop (outgoing_of E) (fst ?r) (snd ?r) (card (insert ?cur V)) = Some (card V')"
      by blast
    have "card (insert ?cur V) = card V + 1" using cur finV by simp
    with res have "kahn_loop (outgoing_of E) indeg queue (card V) = Some (card V')"
      using False by (subst kahn_loop.simps) simp
    with fin show ?thesis by blast
  qed
qed

lemma kahn_final:
  assumes inv: "kahn_inv N E V indeg []" and fin: "finite N"
    and within: "\<forall>e \<in> set E. fst e \<in> N \<and> snd e \<in> N"
  shows "card V = card N \<longleftrightarrow> acyclic (set E)"
proof
  assume "card V = card N"
  moreover from inv have "V \<subseteq> N" by (simp add: kahn_inv_def)
  ultimately have "V = N" using fin by (simp add: card_subset_eq)
  with inv have noc: "\<forall>n \<in> N. (n, n) \<notin> (set E)\<^sup>+" by (simp add: kahn_inv_def)
  show "acyclic (set E)"
    unfolding acyclic_def
  proof (intro allI notI)
    fix x assume x: "(x, x) \<in> (set E)\<^sup>+"
    then obtain y where "(x, y) \<in> set E" by (meson tranclD)
    with within have "x \<in> N" by force
    with noc x show False by blast
  qed
next
  assume acyc: "acyclic (set E)"
  from inv have VN: "V \<subseteq> N"
    and deg: "\<And>n. indeg n = int (length (filter (\<lambda>e. snd e = n \<and> fst e \<notin> V) E))"
    and qs: "{n \<in> N - V. indeg n = 0} = {}"
    unfolding kahn_inv_def by auto
  have "N - V = {}"
  proof (rule ccontr)
    assume ne: "N - V \<noteq> {}"
    have "\<forall>x \<in> N - V. \<exists>y \<in> N - V. (y, x) \<in> set E"
    proof
      fix x assume x: "x \<in> N - V"
      with qs have "indeg x \<noteq> 0" by blast
      then have "filter (\<lambda>e. snd e = x \<and> fst e \<notin> V) E \<noteq> []"
        using deg[of x] by auto
      then obtain e where e: "e \<in> set E" "snd e = x" "fst e \<notin> V"
        by (auto simp: filter_empty_conv)
      with within have "fst e \<in> N - V" by auto
      moreover from e have "(fst e, x) \<in> set E" by (metis prod.collapse)
      ultimately show "\<exists>y \<in> N - V. (y, x) \<in> set E" by blast
    qed
    with no_source_cycle[of "N - V" "set E"] fin ne acyc show False by blast
  qed
  with VN have "V = N" by blast
  then show "card V = card N" by simp
qed

lemma topological_ok_char:
  "topological_ok nodes edges =
     Some (acyclic {(s, d). (s, d) \<in> set edges \<and> s \<in> set nodes \<and> d \<in> set nodes})"
proof -
  let ?N = "set nodes"
  let ?ns = "remdups nodes"
  let ?E = "induced ?N edges"
  let ?indeg = "\<lambda>n. int (length (filter (\<lambda>e. snd e = n) ?E))"
  have graph: "add_edges (set ?ns) edges (\<lambda>n. 0) (\<lambda>n. []) = (?indeg, outgoing_of ?E)"
    by (simp add: add_edges_char outgoing_of_def fun_eq_iff)
  let ?queue = "filter (\<lambda>n. ?indeg n = 0) ?ns"
  have within: "\<forall>e \<in> set ?E. fst e \<in> ?N \<and> snd e \<in> ?N" by (simp add: induced_def)
  have inv: "kahn_inv ?N ?E {} ?indeg ?queue"
    by (auto simp: kahn_inv_def)
  from kahn_loop_total[OF inv _ within] obtain V' indeg' where
    fin: "kahn_inv ?N ?E V' indeg' []"
    and res: "kahn_loop (outgoing_of ?E) ?indeg ?queue 0 = Some (card V')"
    by auto
  have "set ?E = {(s, d). (s, d) \<in> set edges \<and> s \<in> ?N \<and> d \<in> ?N}"
    by (auto simp: induced_def)
  with kahn_final[OF fin _ within]
  have "card V' = card ?N \<longleftrightarrow> acyclic {(s, d). (s, d) \<in> set edges \<and> s \<in> ?N \<and> d \<in> ?N}"
    by simp
  moreover have "length ?ns = card ?N" by (simp add: length_remdups_card_conv)
  ultimately show ?thesis
    unfolding topological_ok_def Let_def graph fst_conv snd_conv res by simp
qed

lemma check_tracks_char:
  "check_tracks groups by_track =
     Some (case find (\<lambda>(t, ns). topological_ok ns (dd_get t by_track) = Some False) groups of
             None \<Rightarrow> Inr ()
           | Some (t, ns) \<Rightarrow> Inl (DagViolation t))"
proof (induction groups)
  case Nil
  show ?case by simp
next
  case (Cons g groups)
  obtain t ns where g: "g = (t, ns)" by (cases g)
  show ?case
    using Cons by (simp add: g topological_ok_char)
qed

text \<open>
  Claim C2. \<open>topological_ok\<close> always returns; its answer is that of the edge list without
  the edges that have an endpoint outside the node set, and it is true exactly when the
  remaining edges form an acyclic graph. The validation of the tracks always returns as
  well: it succeeds exactly when the check is true on every track, and it raises the error
  of a track whenever the check is false on some track.
\<close>

theorem topological_ok_iff_acyclic:
  "topological_ok nodes edges =
     Some (acyclic {(s, d). (s, d) \<in> set edges \<and> s \<in> set nodes \<and> d \<in> set nodes}) \<and>
   topological_ok nodes edges =
     topological_ok nodes (filter (\<lambda>(s, d). s \<in> set nodes \<and> d \<in> set nodes) edges) \<and>
   (\<exists>r. validate_tracks rows = Some r) \<and>
   (validate_tracks rows = Some (Inr ()) \<longleftrightarrow>
      (\<forall>(t, ns) \<in> set (nodes_by_track rows).
          topological_ok ns (dd_get t (edges_by_track rows)) = Some True)) \<and>
   ((\<exists>(t, ns) \<in> set (nodes_by_track rows).
        topological_ok ns (dd_get t (edges_by_track rows)) = Some False) \<longrightarrow>
      (\<exists>t. validate_tracks rows = Some (Inl (DagViolation t))))"
proof (intro conjI)
  show "topological_ok nodes edges =
     Some (acyclic {(s, d). (s, d) \<in> set edges \<and> s \<in> set nodes \<and> d \<in> set nodes})"
    by (rule topological_ok_char)
  have "{(s, d). (s, d) \<in> set (filter (\<lambda>(s, d). s \<in> set nodes \<and> d \<in> set nodes) edges) \<and>
           s \<in> set nodes \<and> d \<in> set nodes} =
        {(s, d). (s, d) \<in> set edges \<and> s \<in> set nodes \<and> d \<in> set nodes}"
    by auto
  then show "topological_ok nodes edges =
     topological_ok nodes (filter (\<lambda>(s, d). s \<in> set nodes \<and> d \<in> set nodes) edges)"
    by (simp only: topological_ok_char)
  let ?groups = "nodes_by_track rows" and ?bt = "edges_by_track rows"
  let ?bad = "\<lambda>(t, ns). topological_ok ns (dd_get t ?bt) = Some False"
  have v: "validate_tracks rows =
     Some (case find ?bad ?groups of None \<Rightarrow> Inr () | Some (t, ns) \<Rightarrow> Inl (DagViolation t))"
    unfolding validate_tracks_def by (rule check_tracks_char)
  then show "\<exists>r. validate_tracks rows = Some r" by blast
  have total: "topological_ok ns es = Some True \<longleftrightarrow> topological_ok ns es \<noteq> Some False"
    for ns :: "pystr list" and es
    by (simp add: topological_ok_char)
  show "validate_tracks rows = Some (Inr ()) \<longleftrightarrow>
      (\<forall>(t, ns) \<in> set ?groups. topological_ok ns (dd_get t ?bt) = Some True)"
  proof (cases "find ?bad ?groups")
    case None
    then have "\<forall>g \<in> set ?groups. \<not> ?bad g" by (auto simp: find_None_iff)
    then show ?thesis unfolding v None by (auto simp: total)
  next
    case (Some g)
    then have "g \<in> set ?groups" "?bad g"
      by (auto simp: find_Some_iff in_set_conv_nth)
    then show ?thesis unfolding v Some by (auto simp: total split: prod.splits)
  qed
  show "(\<exists>(t, ns) \<in> set ?groups. topological_ok ns (dd_get t ?bt) = Some False) \<longrightarrow>
      (\<exists>t. validate_tracks rows = Some (Inl (DagViolation t)))"
  proof
    assume "\<exists>(t, ns) \<in> set ?groups. topological_ok ns (dd_get t ?bt) = Some False"
    then have "find ?bad ?groups \<noteq> None" by (auto simp: find_None_iff)
    then obtain g where "find ?bad ?groups = Some g" by blast
    then show "\<exists>t. validate_tracks rows = Some (Inl (DagViolation t))"
      unfolding v by (cases g) simp
  qed
qed

text \<open>
  A chain on one track and a loop of two events on another: the chain is acyclic, and the
  loop makes the validation raise.
\<close>

definition chron_row :: "string \<Rightarrow> string \<Rightarrow> string \<Rightarrow> edge_row" where
  "chron_row t a b =
     \<lparr>edge_id = asc ''EDG'', from_event_id = asc a, to_event_id = asc b,
      relation_type = asc ''before'', basis_reference = asc ''ref'', edge_track_id = asc t\<rparr>"

definition chron_ex :: "edge_row list" where
  "chron_ex = [chron_row ''main'' ''E1'' ''E2'', chron_row ''main'' ''E2'' ''E3'',
               chron_row ''alt'' ''E1'' ''E2'', chron_row ''alt'' ''E2'' ''E1'']"

lemma chron_ex_groups:
  "nodes_by_track chron_ex =
     [(asc ''main'', [asc ''E1'', asc ''E2'', asc ''E3'']), (asc ''alt'', [asc ''E1'', asc ''E2''])]"
  "dd_get (asc ''alt'') (edges_by_track chron_ex) =
     [(asc ''E1'', asc ''E2''), (asc ''E2'', asc ''E1'')]"
  "topological_ok [asc ''E1'', asc ''E2'']
     [(asc ''E1'', asc ''E2''), (asc ''E2'', asc ''E1'')] = Some False"
  "topological_ok [1::nat, 2, 3] [(1, 2), (2, 3), (7, 1)] = Some True"
  by code_simp+

theorem topological_ok_iff_acyclic_witness:
  "acyclic {(s, d). (s, d) \<in> set [(1::nat, 2), (2, 3), (7, 1)] \<and> s \<in> set [1, 2, 3] \<and> d \<in> set [1, 2, 3]} \<and>
   (\<exists>t. validate_tracks chron_ex = Some (Inl (DagViolation t)))"
  using topological_ok_iff_acyclic[of "[1::nat, 2, 3]" "[(1, 2), (2, 3), (7, 1)]" chron_ex]
    chron_ex_groups
  by simp

section \<open>The extractor: heading-delimited spans\<close>

definition heading_indices :: "verse list \<Rightarrow> nat list" where
  "heading_indices verses =
     filter (\<lambda>i. heading_match (v_text (verses ! i)) \<noteq> None) [0..<length verses]"

lemma heading_positions_snoc:
  "heading_positions nfc (vs @ [v]) =
     heading_positions nfc vs @
     (case heading_match (v_text v) of
        None \<Rightarrow> []
      | Some (g1, g2) \<Rightarrow> [(length vs, normalize_text nfc g1, normalize_text nfc g2)])"
  by (auto simp: heading_positions_def enumerate_append_eq map_filter_def split: option.splits)

lemma heading_indices_snoc:
  "heading_indices (vs @ [v]) =
     heading_indices vs @ (if heading_match (v_text v) \<noteq> None then [length vs] else [])"
proof -
  have "filter (\<lambda>i. heading_match (v_text ((vs @ [v]) ! i)) \<noteq> None) [0..<length vs] =
        filter (\<lambda>i. heading_match (v_text (vs ! i)) \<noteq> None) [0..<length vs]"
    by (rule filter_cong) (auto simp: nth_append)
  then show ?thesis by (simp add: heading_indices_def)
qed

lemma heading_positions_indices:
  "map fst (heading_positions nfc verses) = heading_indices verses"
proof (induction verses rule: rev_induct)
  case Nil
  show ?case by (simp add: heading_positions_def heading_indices_def map_filter_def)
next
  case (snoc v vs)
  then show ?case
    by (auto simp: heading_positions_snoc heading_indices_snoc split: option.splits)
qed

lemma heading_indices_sorted:
  "sorted_wrt (<) (heading_indices verses)" "\<forall>i \<in> set (heading_indices verses). i < length verses"
  by (auto simp: heading_indices_def sorted_wrt_filter strict_sorted_iff[symmetric] intro: sorted_wrt_filter)

lemma zip_next:
  "zip (s # hs) (hs @ [n]) = (s, hd (hs @ [n])) # zip hs (tl hs @ [n])"
  by (cases hs) auto

lemma candidates_from_slices:
  assumes "sorted_wrt (<) (map fst ps)" "\<forall>i \<in> set (map fst ps). i < length verses"
  shows "map c_verse_slice (candidates_from book_name verses ps) =
         map (\<lambda>(a, e). take (e - a) (drop a verses)) (zip (map fst ps) (tl (map fst ps) @ [length verses]))"
  using assms
proof (induction ps)
  case Nil
  show ?case by simp
next
  case (Cons p ps)
  obtain s title first_text where p: "p = (s, title, first_text)" by (cases p)
  let ?e = "hd (map fst ps @ [length verses])"
  have e: "nat ((case ps of [] \<Rightarrow> int (length verses) - 1 | (nxt, _) # _ \<Rightarrow> int nxt - 1) + 1) = ?e"
    by (cases ps) (auto split: prod.splits)
  have "s < ?e" using Cons.prems by (cases ps) (auto simp: p)
  moreover have "s < length verses" using Cons.prems by (simp add: p)
  ultimately have ne: "take (?e - s) (drop s verses) \<noteq> []" by simp
  have IH: "map c_verse_slice (candidates_from book_name verses ps) =
         map (\<lambda>(a, e). take (e - a) (drop a verses)) (zip (map fst ps) (tl (map fst ps) @ [length verses]))"
    using Cons.prems by (intro Cons.IH) auto
  have "map c_verse_slice (candidates_from book_name verses (p # ps)) =
        take (?e - s) (drop s verses) # map c_verse_slice (candidates_from book_name verses ps)"
    unfolding p candidates_from.simps Let_def e using ne by (simp add: candidate_of_def Let_def)
  also have "\<dots> = map (\<lambda>(a, e). take (e - a) (drop a verses))
        ((s, ?e) # zip (map fst ps) (tl (map fst ps) @ [length verses]))"
    by (simp only: IH list.map prod.case)
  also have "(s, ?e) # zip (map fst ps) (tl (map fst ps) @ [length verses]) =
        zip (map fst (p # ps)) (tl (map fst (p # ps)) @ [length verses])"
    by (simp only: p list.map fst_conv list.sel zip_next)
  finally show ?case .
qed

lemma candidates_from_props:
  "c \<in> set (candidates_from book_name verses ps) \<Longrightarrow>
   c_verse_slice c \<noteq> [] \<and> c_book_name c = book_name \<and>
   c_start_ref c = verse_ref book_name (hd (c_verse_slice c)) \<and>
   c_end_ref c = verse_ref book_name (last (c_verse_slice c))"
proof (induction ps)
  case Nil
  then show ?case by simp
next
  case (Cons p ps)
  obtain s title first_text where p: "p = (s, title, first_text)" by (cases p)
  from Cons show ?case
    unfolding p candidates_from.simps Let_def
    by (auto simp: candidate_of_def Let_def split: if_splits)
qed

text \<open>
  Claim C5. In the verse list of a narrative book, the candidate events are, in order,
  the spans that start at a verse whose text begins with a heading marker (the indexes
  \<open>heading_indices\<close>) and end before the next such verse, the last one at the end of the
  book. No span is empty, its references are those of its first and last verse, and
  \<open>build_candidate_events\<close> returns the events of all books, sorted.
\<close>

theorem book_events_spans:
  assumes "book_name \<in> NARRATIVE_BOOKS"
  shows "map c_verse_slice (book_events nfc book_name verses) =
           map (\<lambda>(a, e). take (e - a) (drop a verses))
             (zip (heading_indices verses) (tl (heading_indices verses) @ [length verses])) \<and>
         (\<forall>c \<in> set (book_events nfc book_name verses).
             c_verse_slice c \<noteq> [] \<and>
             c_start_ref c = verse_ref book_name (hd (c_verse_slice c)) \<and>
             c_end_ref c = verse_ref book_name (last (c_verse_slice c))) \<and>
         set (build_candidate_events nfc by_book) =
           (\<Union>(b, vs) \<in> set by_book. set (book_events nfc b vs)) \<and>
         length (build_candidate_events nfc by_book) =
           sum_list (map (\<lambda>(b, vs). length (book_events nfc b vs)) by_book)"
proof (intro conjI)
  have ev: "book_events nfc book_name verses =
      candidates_from book_name verses (heading_positions nfc verses)"
    using assms by (simp add: book_events_def)
  show "map c_verse_slice (book_events nfc book_name verses) =
           map (\<lambda>(a, e). take (e - a) (drop a verses))
             (zip (heading_indices verses) (tl (heading_indices verses) @ [length verses]))"
    unfolding ev
    using candidates_from_slices[of "heading_positions nfc verses" verses book_name]
      heading_indices_sorted[of verses]
    by (simp only: heading_positions_indices)
  show "\<forall>c \<in> set (book_events nfc book_name verses).
             c_verse_slice c \<noteq> [] \<and>
             c_start_ref c = verse_ref book_name (hd (c_verse_slice c)) \<and>
             c_end_ref c = verse_ref book_name (last (c_verse_slice c))"
    unfolding ev using candidates_from_props by blast
  show "set (build_candidate_events nfc by_book) =
           (\<Union>(b, vs) \<in> set by_book. set (book_events nfc b vs))"
    by (auto simp: build_candidate_events_def)
  show "length (build_candidate_events nfc by_book) =
           sum_list (map (\<lambda>(b, vs). length (book_events nfc b vs)) by_book)"
  proof -
    have "length (concat (map (\<lambda>(b, vs). book_events nfc b vs) xs)) =
          sum_list (map (\<lambda>(b, vs). length (book_events nfc b vs)) xs)" for xs
      by (induction xs) auto
    then show ?thesis by (simp add: build_candidate_events_def)
  qed
qed

text \<open>
  The scenario of the claim: ten verses of Genesis 1 with headings on the verses 1 and 6.
\<close>

definition genesis :: pystr where
  "genesis = [52285, 49464, 44592]"

definition verse_ex :: "int \<Rightarrow> verse" where
  "verse_ex k =
     \<lparr>v_testament = asc ''OT'', v_canonical_order = 1, v_book_name = genesis,
      v_book_abbr = [52285], v_chapter = 1, v_verse = k,
      v_text = (if k = 1 then asc ''<Creation> In the beginning''
                else if k = 6 then asc ''<The vault> And God said''
                else asc ''And it was so'')\<rparr>"

definition verses_ex :: "verse list" where
  "verses_ex = map verse_ex [1, 2, 3, 4, 5, 6, 7, 8, 9, 10]"

lemma scenario_book: "genesis \<in> NARRATIVE_BOOKS"
  by (simp add: genesis_def NARRATIVE_BOOKS_def)

lemma scenario_headings: "heading_indices verses_ex = [0, 5]"
  by code_simp

lemma scenario_slices:
  "map (map v_verse) (map (\<lambda>(a, e). take (e - a) (drop a verses_ex)) (zip [0, 5] (tl [0, 5] @ [length verses_ex]))) =
     [[1, 2, 3, 4, 5], [6, 7, 8, 9, 10]]"
  by code_simp

theorem book_events_spans_witness:
  "map (map v_verse) (map c_verse_slice (book_events (\<lambda>s. s) genesis verses_ex)) =
     [[1, 2, 3, 4, 5], [6, 7, 8, 9, 10]] \<and>
   length (build_candidate_events (\<lambda>s. s) [(genesis, verses_ex)]) = 2"
proof -
  note t = book_events_spans[OF scenario_book, of "\<lambda>s. s" verses_ex "[(genesis, verses_ex)]"]
  from t have "map c_verse_slice (book_events (\<lambda>s. s) genesis verses_ex) =
      map (\<lambda>(a, e). take (e - a) (drop a verses_ex)) (zip [0, 5] (tl [0, 5] @ [length verses_ex]))"
    by (simp only: scenario_headings)
  then have a: "map (map v_verse) (map c_verse_slice (book_events (\<lambda>s. s) genesis verses_ex)) =
     [[1, 2, 3, 4, 5], [6, 7, 8, 9, 10]]"
    by (simp only: scenario_slices)
  then have "length (book_events (\<lambda>s. s) genesis verses_ex) = 2"
    by (metis length_map length_Cons list.size(3) numeral_2_eq_2)
  moreover from t have "length (build_candidate_events (\<lambda>s. s) [(genesis, verses_ex)]) =
      sum_list (map (\<lambda>(b, vs). length (book_events (\<lambda>s. s) b vs)) [(genesis, verses_ex)])"
    by (rule conjunct2[OF conjunct2[OF conjunct2]])
  ultimately have "length (build_candidate_events (\<lambda>s. s) [(genesis, verses_ex)]) = 2"
    by (simp only: list.map prod.case sum_list.Cons sum_list.Nil add_0_right)
  with a show ?thesis by (rule conjI)
qed

lemma scenario_events:
  "map (\<lambda>c. (c_title c, c_start_ref c, c_end_ref c)) (build_candidate_events (\<lambda>s. s) [(genesis, verses_ex)]) =
     [(asc ''Creation'', genesis @ asc '' 1:1'', genesis @ asc '' 1:5''),
      (asc ''The vault'', genesis @ asc '' 1:6'', genesis @ asc '' 1:10'')]"
  by code_simp

end
